theory Spec2Isabelle
  imports Main "HOL-Library.Word" "HOL-Library.Multiset"
begin

section \<open>The test program \<open>src/test/original.c\<close>\<close>

text \<open>
  The program is a handful of small C functions over \<open>int\<close> values, \<open>int\<close> arrays, a
  3x3 \<open>int\<close> matrix and a null-terminated string.

  \<^item> A C \<open>int\<close> is a 32-bit word (the width of \<open>int\<close> on every target of the compiler
    named in the file's header). \<open>+\<close>, \<open>-\<close> and \<open>*\<close> wrap modulo \<open>2 ^ 32\<close>; \<open>sint\<close> reads
    the two's-complement value; \<open><s\<close> and \<open>\<le>s\<close> are the signed comparisons. ISO C leaves
    signed overflow undefined; the model takes the wrap-around of the machine
    instructions, which is what the specification documents.
  \<^item> Memory that a pointer refers to is a list of cells, and a pointer is the (integer)
    address of a cell: \<open>p[i]\<close> is the cell at address \<open>p + i\<close>. Reading or writing an
    address outside the list is the error \<open>OutOfBounds\<close>, which every function
    propagates to its caller.
\<close>

subsection \<open>Values, addresses and memory\<close>

type_synonym cint = "32 word"

type_synonym addr = int

datatype error = OutOfBounds

definition load :: "'a list \<Rightarrow> addr \<Rightarrow> error + 'a" where
  "load m a = (if 0 \<le> a \<and> a < int (length m) then Inr (m ! nat a) else Inl OutOfBounds)"

definition store :: "'a list \<Rightarrow> addr \<Rightarrow> 'a \<Rightarrow> error + 'a list" where
  "store m a v = (if 0 \<le> a \<and> a < int (length m) then Inr (m[nat a := v]) else Inl OutOfBounds)"

subsection \<open>Arithmetic: \<open>add_numbers\<close>, \<open>square\<close>, \<open>max_of_three\<close>\<close>

definition add_numbers :: "cint \<Rightarrow> cint \<Rightarrow> cint" where
  "add_numbers a b = a + b"

definition square :: "cint \<Rightarrow> cint" where
  "square x = (let result = x * x in result)"

definition max_of_three :: "cint \<Rightarrow> cint \<Rightarrow> cint \<Rightarrow> cint" where
  "max_of_three a b c =
     (let max0 = a;
          max1 = (if max0 <s b then b else max0);
          max2 = (if max1 <s c then c else max1)
      in max2)"

subsection \<open>Signed arithmetic that does not overflow\<close>

text \<open>
  The loop counters are C \<open>int\<close>s. The facts below say when a counter's arithmetic is
  exact; the termination proofs of the loops need them.
\<close>

lemma sint_range: "- 2147483648 \<le> sint (x::cint) \<and> sint x \<le> 2147483647"
  using sint_ge [of x] sint_lt [of x] by simp

lemma sint_add_exact:
  "- 2147483648 \<le> sint a + sint b \<Longrightarrow> sint a + sint b \<le> 2147483647 \<Longrightarrow>
   sint (a + b :: cint) = sint a + sint b"
  by (simp add: sint_word_ariths signed_take_bit_int_eq_self)

lemma sint_sub_exact:
  "- 2147483648 \<le> sint a - sint b \<Longrightarrow> sint a - sint b \<le> 2147483647 \<Longrightarrow>
   sint (a - b :: cint) = sint a - sint b"
  by (simp add: sint_word_ariths signed_take_bit_int_eq_self)

lemma sint_succ_exact: "sint i < 2147483647 \<Longrightarrow> sint (i + 1 :: cint) = sint i + 1"
  using sint_range [of i] by (simp add: sint_add_exact)

lemma sint_succ: "i <s (b::cint) \<Longrightarrow> sint (i + 1) = sint i + 1"
  using sint_range [of b] by (simp add: word_sless_alt sint_succ_exact)

subsection \<open>Loops over an array: \<open>sum_array\<close>\<close>

text \<open>
  \<open>for (int i = 0; i < len; i++) total += arr[i];\<close> The loop is the recursive function
  \<open>sum_array_loop\<close> on the loop state \<open>(i, total)\<close> (\<open>total'\<close> below, \<open>total\<close> being a
  constant of HOL).
\<close>

function sum_array_loop :: "cint list \<Rightarrow> addr \<Rightarrow> cint \<Rightarrow> cint \<Rightarrow> cint \<Rightarrow> error + cint" where
  "sum_array_loop m arr len i total' =
     (if i <s len then
        (case load m (arr + sint i) of
           Inl e \<Rightarrow> Inl e
         | Inr v \<Rightarrow> sum_array_loop m arr len (i + 1) (total' + v))
      else Inr total')"
  by pat_completeness auto
termination
  by (relation "measure (\<lambda>(m, arr, len, i, total'). nat (sint len - sint i))")
     (auto simp: sint_succ word_sless_alt)

declare sum_array_loop.simps [simp del]

definition sum_array :: "cint list \<Rightarrow> addr \<Rightarrow> cint \<Rightarrow> error + cint" where
  "sum_array m arr len = sum_array_loop m arr len 0 0"

subsection \<open>\<open>string_length\<close>\<close>

text \<open>
  \<open>while (s[len] != '\0') len++;\<close> The counter is an \<open>int\<close> and wraps, so on a memory of
  \<open>2 ^ 32\<close> or more characters without a terminator the loop can run forever: the
  function is partial, and not returning is the value \<open>None\<close>.
\<close>

partial_function (option) string_length_loop :: "char list \<Rightarrow> addr \<Rightarrow> cint \<Rightarrow> (error + cint) option" where
  "string_length_loop m s len =
     (case load m (s + sint len) of
        Inl e \<Rightarrow> Some (Inl e)
      | Inr c \<Rightarrow> if c \<noteq> CHR 0x00 then string_length_loop m s (len + 1) else Some (Inr len))"

declare string_length_loop.simps [code]

definition string_length :: "char list \<Rightarrow> addr \<Rightarrow> (error + cint) option" where
  "string_length m s = string_length_loop m s 0"

subsection \<open>\<open>matrix_sum\<close>\<close>

text \<open>
  The parameter \<open>int matrix[3][3]\<close> is a pointer to rows of three \<open>int\<close>s: the memory it
  points into is a list of rows, \<open>matrix[i]\<close> is the row at address \<open>matrix + i\<close>, and
  \<open>matrix[i][j]\<close> is the cell \<open>j\<close> of that row.
\<close>

function matrix_sum_inner :: "cint list \<Rightarrow> cint \<Rightarrow> cint \<Rightarrow> error + cint" where
  "matrix_sum_inner row j sum0 =
     (if j <s 3 then
        (case load row (sint j) of
           Inl e \<Rightarrow> Inl e
         | Inr v \<Rightarrow> matrix_sum_inner row (j + 1) (sum0 + v))
      else Inr sum0)"
  by pat_completeness auto
termination
  by (relation "measure (\<lambda>(row, j, sum0). nat (3 - sint j))")
     (auto simp: sint_succ_exact word_sless_alt)

declare matrix_sum_inner.simps [simp del]

function matrix_sum_outer :: "cint list list \<Rightarrow> addr \<Rightarrow> cint \<Rightarrow> cint \<Rightarrow> error + cint" where
  "matrix_sum_outer m matrix i sum0 =
     (if i <s 3 then
        (case load m (matrix + sint i) of
           Inl e \<Rightarrow> Inl e
         | Inr row \<Rightarrow>
             (case matrix_sum_inner row 0 sum0 of
                Inl e \<Rightarrow> Inl e
              | Inr sum1 \<Rightarrow> matrix_sum_outer m matrix (i + 1) sum1))
      else Inr sum0)"
  by pat_completeness auto
termination
  by (relation "measure (\<lambda>(m, matrix, i, sum0). nat (3 - sint i))")
     (auto simp: sint_succ_exact word_sless_alt)

declare matrix_sum_outer.simps [simp del]

definition matrix_sum :: "cint list list \<Rightarrow> addr \<Rightarrow> error + cint" where
  "matrix_sum m matrix = matrix_sum_outer m matrix 0 0"

subsection \<open>\<open>fibonacci\<close>\<close>

function fibonacci :: "cint \<Rightarrow> cint" where
  "fibonacci n = (if n \<le>s 1 then n else fibonacci (n - 1) + fibonacci (n - 2))"
  by pat_completeness auto
termination
proof (relation "measure (\<lambda>n. nat (sint n))")
  show "wf (measure (\<lambda>n::cint. nat (sint n)))"
    by simp
next
  fix n :: cint
  assume "\<not> n \<le>s 1"
  then have "1 < sint n"
    by (simp add: word_sle_eq)
  then show "(n - 1, n) \<in> measure (\<lambda>n. nat (sint n))"
    using sint_range [of n] by (simp add: sint_sub_exact)
next
  fix n :: cint
  assume "\<not> n \<le>s 1"
  then have "1 < sint n"
    by (simp add: word_sle_eq)
  then show "(n - 2, n) \<in> measure (\<lambda>n. nat (sint n))"
    using sint_range [of n] by (simp add: sint_sub_exact)
qed

declare fibonacci.simps [simp del]

subsection \<open>\<open>swap\<close> and \<open>bubble_sort\<close>\<close>

text \<open>
  \<open>swap\<close> reads both cells and writes both: \<open>temp = *a; *a = *b; *b = temp\<close>. It returns
  nothing; the model returns the memory after the call.
\<close>

definition swap :: "cint list \<Rightarrow> addr \<Rightarrow> addr \<Rightarrow> error + cint list" where
  "swap m a b =
     (case load m a of
        Inl e \<Rightarrow> Inl e
      | Inr temp \<Rightarrow>
          (case load m b of
             Inl e \<Rightarrow> Inl e
           | Inr vb \<Rightarrow>
               (case store m a vb of
                  Inl e \<Rightarrow> Inl e
                | Inr m1 \<Rightarrow> store m1 b temp)))"

text \<open>
  The inner loop \<open>for (int j = 0; j < n - i - 1; j++)\<close> and the outer loop
  \<open>for (int i = 0; i < n - 1; i++)\<close>, each a recursive function on its counter and the
  memory. \<open>&arr[j]\<close> is the address \<open>arr + j\<close>.
\<close>

function bubble_sort_inner :: "cint list \<Rightarrow> addr \<Rightarrow> cint \<Rightarrow> cint \<Rightarrow> cint \<Rightarrow> error + cint list" where
  "bubble_sort_inner m arr n i j =
     (if j <s n - i - 1 then
        (case load m (arr + sint j) of
           Inl e \<Rightarrow> Inl e
         | Inr x \<Rightarrow>
             (case load m (arr + sint (j + 1)) of
                Inl e \<Rightarrow> Inl e
              | Inr y \<Rightarrow>
                  if y <s x then
                    (case swap m (arr + sint j) (arr + sint (j + 1)) of
                       Inl e \<Rightarrow> Inl e
                     | Inr m' \<Rightarrow> bubble_sort_inner m' arr n i (j + 1))
                  else bubble_sort_inner m arr n i (j + 1)))
      else Inr m)"
  by pat_completeness auto
termination
  by (relation "measure (\<lambda>(m, arr, n, i, j). nat (sint (n - i - 1) - sint j))")
     (auto simp: sint_succ word_sless_alt)

declare bubble_sort_inner.simps [simp del]

function bubble_sort_outer :: "cint list \<Rightarrow> addr \<Rightarrow> cint \<Rightarrow> cint \<Rightarrow> error + cint list" where
  "bubble_sort_outer m arr n i =
     (if i <s n - 1 then
        (case bubble_sort_inner m arr n i 0 of
           Inl e \<Rightarrow> Inl e
         | Inr m' \<Rightarrow> bubble_sort_outer m' arr n (i + 1))
      else Inr m)"
  by pat_completeness auto
termination
  by (relation "measure (\<lambda>(m, arr, n, i). nat (sint (n - 1) - sint i))")
     (auto simp: sint_succ word_sless_alt)

declare bubble_sort_outer.simps [simp del]

definition bubble_sort :: "cint list \<Rightarrow> addr \<Rightarrow> cint \<Rightarrow> error + cint list" where
  "bubble_sort m arr n = bubble_sort_outer m arr n 0"

section \<open>Properties of the functions\<close>

subsection \<open>Memory\<close>

lemma load_Inr_iff: "load m a = Inr v \<longleftrightarrow> 0 \<le> a \<and> a < int (length m) \<and> v = m ! nat a"
  by (auto simp: load_def)

subsection \<open>\<open>add_numbers\<close> and \<open>square\<close>\<close>

lemma sint_wrap_add: "sint (a + b :: cint) = (sint a + sint b + 2 ^ 31) mod 2 ^ 32 - 2 ^ 31"
  by (simp add: sint_word_ariths signed_take_bit_eq_take_bit_shift take_bit_eq_mod)

lemma sint_wrap_mult: "sint (a * b :: cint) = (sint a * sint b + 2 ^ 31) mod 2 ^ 32 - 2 ^ 31"
  by (simp add: sint_word_ariths signed_take_bit_eq_take_bit_shift take_bit_eq_mod)

text \<open>
  Claim C8. \<open>add_numbers a b\<close> is \<open>a + b\<close> and \<open>square x\<close> is \<open>x * x\<close> in 32-bit
  two's-complement arithmetic: the signed value of the result is the mathematical sum
  (product) of the signed values of the arguments, reduced modulo \<open>2 ^ 32\<close> into the range
  from \<open>- 2 ^ 31\<close> to \<open>2 ^ 31 - 1\<close>. In particular \<open>add_numbers 3 4 = 7\<close>,
  \<open>add_numbers (- 1) 1 = 0\<close>, \<open>square 5 = 25\<close> and \<open>square 0 = 0\<close>.
\<close>

theorem add_numbers_square_wrap:
  "add_numbers a b = a + b \<and>
   sint (add_numbers a b) = (sint a + sint b + 2 ^ 31) mod 2 ^ 32 - 2 ^ 31 \<and>
   square x = x * x \<and>
   sint (square x) = (sint x * sint x + 2 ^ 31) mod 2 ^ 32 - 2 ^ 31 \<and>
   add_numbers 3 4 = 7 \<and> add_numbers (- 1) 1 = 0 \<and> square 5 = 25 \<and> square 0 = 0"
  by (simp add: add_numbers_def square_def sint_wrap_add sint_wrap_mult)

text \<open>
  \<open>max_of_three\<close> returns the largest of its arguments as signed numbers; it is 7 on
  3, 7, 2 and 5 on 5, 5, 5.
\<close>

theorem max_of_three_max:
  "sint (max_of_three a b c) = max (sint a) (max (sint b) (sint c)) \<and>
   max_of_three 3 7 2 = 7 \<and> max_of_three 5 5 5 = 5"
  by (simp add: max_of_three_def Let_def word_sless_alt max_def)

subsection \<open>\<open>fibonacci\<close>\<close>

lemma fibonacci_10: "fibonacci 10 = 55"
  by code_simp

text \<open>
  Claim C4. For every \<open>int\<close> \<open>n\<close>, \<open>fibonacci n\<close> returns \<open>n\<close> when \<open>n\<close> is at most 1 as a
  signed number (every negative \<open>n\<close> included), and \<open>fibonacci (n - 1) + fibonacci (n - 2)\<close>
  otherwise; \<open>fibonacci 0 = 0\<close>, \<open>fibonacci 1 = 1\<close> and \<open>fibonacci 10 = 55\<close>. The function is
  total: the recursion terminates for every \<open>n\<close>.
\<close>

theorem fibonacci_spec:
  "fibonacci n = (if sint n \<le> 1 then n else fibonacci (n - 1) + fibonacci (n - 2)) \<and>
   fibonacci 0 = 0 \<and> fibonacci 1 = 1 \<and> fibonacci 10 = 55 \<and> fibonacci (- 7) = - 7"
proof -
  have "fibonacci n = (if sint n \<le> 1 then n else fibonacci (n - 1) + fibonacci (n - 2))"
    by (subst fibonacci.simps) (simp add: word_sle_eq)
  moreover have "fibonacci 0 = 0"
    by (subst fibonacci.simps) (simp add: word_sle_eq)
  moreover have "fibonacci 1 = 1"
    by (subst fibonacci.simps) (simp add: word_sle_eq)
  moreover have "fibonacci (- 7) = - 7"
    by (subst fibonacci.simps) (simp add: word_sle_eq)
  ultimately show ?thesis
    using fibonacci_10 by simp
qed

subsection \<open>\<open>sum_array\<close>\<close>

lemma take_drop_step:
  "d < length m \<Longrightarrow> take (Suc k) (drop d m) = m ! d # take k (drop (Suc d) m)"
  by (simp add: Cons_nth_drop_Suc [symmetric])

lemma sum_array_loop_sum:
  assumes "0 \<le> arr" and "0 \<le> sint i" and "sint i \<le> sint len"
    and "arr + sint len \<le> int (length m)"
  shows "sum_array_loop m arr len i t =
           Inr (t + sum_list (take (nat (sint len - sint i)) (drop (nat (arr + sint i)) m)))"
  using assms
proof (induction m arr len i t rule: sum_array_loop.induct)
  case (1 m arr len i t)
  show ?case
  proof (cases "i <s len")
    case False
    with "1.prems" have "sint len - sint i = 0"
      by (simp add: word_sless_alt)
    with False show ?thesis
      by (subst sum_array_loop.simps) simp
  next
    case True
    then have lt: "sint i < sint len"
      by (simp add: word_sless_alt)
    have s: "sint (i + 1) = sint i + 1"
      using True by (rule sint_succ)
    have ld: "load m (arr + sint i) = Inr (m ! nat (arr + sint i))"
      using "1.prems" lt by (simp add: load_def)
    have ih: "sum_array_loop m arr len (i + 1) (t + m ! nat (arr + sint i)) =
        Inr (t + m ! nat (arr + sint i) +
          sum_list (take (nat (sint len - sint (i + 1))) (drop (nat (arr + sint (i + 1))) m)))"
      using "1.prems" lt s by (intro "1.IH" [OF True ld]) simp_all
    have d: "nat (arr + sint i) < length m"
      using "1.prems" lt by simp
    have k: "nat (sint len - sint i) = Suc (nat (sint len - sint (i + 1)))"
      using lt s by simp
    have a: "nat (arr + sint (i + 1)) = Suc (nat (arr + sint i))"
      using "1.prems" s by simp
    show ?thesis
      by (subst sum_array_loop.simps)
        (simp add: True ld ih k a take_drop_step [OF d] add.assoc)
  qed
qed

lemma sum_list_word_of_int: "sum_list ws = (word_of_int (sum_list (map sint ws)) :: cint)"
  by (induction ws) simp_all

lemma sint_sum_list:
  "sint (sum_list ws :: cint) = (sum_list (map sint ws) + 2 ^ 31) mod 2 ^ 32 - 2 ^ 31"
  by (subst sum_list_word_of_int) (simp add: int_word_sint)

lemma sum_array_5: "sum_array [1, 2, 3, 4, 5] 0 5 = Inr 15"
  by code_simp

text \<open>
  Claim C5. When \<open>arr\<close> points to at least \<open>len\<close> cells and \<open>len\<close> is not negative,
  \<open>sum_array\<close> returns the sum of the cells \<open>arr[0]\<close>, ..., \<open>arr[len - 1]\<close>, added as
  \<open>int\<close>s: its signed value is the mathematical sum of the cells' signed values reduced
  modulo \<open>2 ^ 32\<close> into the signed range. It returns 0 when \<open>len\<close> is 0, and 15 on
  \<open>[1, 2, 3, 4, 5]\<close> with \<open>len = 5\<close>.
\<close>

theorem sum_array_sum:
  "(0 \<le> arr \<and> 0 \<le> sint len \<and> arr + sint len \<le> int (length m) \<longrightarrow>
      sum_array m arr len = Inr (sum_list (take (nat (sint len)) (drop (nat arr) m))) \<and>
      sint (sum_list (take (nat (sint len)) (drop (nat arr) m))) =
        (sum_list (map sint (take (nat (sint len)) (drop (nat arr) m))) + 2 ^ 31) mod 2 ^ 32 - 2 ^ 31) \<and>
   sum_array m arr 0 = Inr 0 \<and>
   sum_array [1, 2, 3, 4, 5] 0 5 = Inr 15"
proof -
  have "sum_array m arr len = Inr (sum_list (take (nat (sint len)) (drop (nat arr) m)))"
    if "0 \<le> arr" "0 \<le> sint len" "arr + sint len \<le> int (length m)"
    using sum_array_loop_sum [of arr 0 len m 0] that by (simp add: sum_array_def)
  moreover have "sum_array m arr 0 = Inr 0"
    unfolding sum_array_def by (subst sum_array_loop.simps) simp
  ultimately show ?thesis
    using sum_array_5 sint_sum_list by blast
qed

theorem sum_array_sum_witness:
  "(0::int) \<le> 1 \<and> 0 \<le> sint (2 :: cint) \<and> 1 + sint (2 :: cint) \<le> int (length [10, 20, 30, 40 :: cint]) \<and>
   sum_array [10, 20, 30, 40] 1 2 = Inr 50"
proof -
  have h: "(0::int) \<le> 1 \<and> 0 \<le> sint (2 :: cint) \<and> 1 + sint (2 :: cint) \<le> int (length [10, 20, 30, 40 :: cint])"
    by simp
  from sum_array_sum [of 1 2 "[10, 20, 30, 40]"] h show ?thesis
    by simp
qed

subsection \<open>\<open>string_length\<close>\<close>

lemma string_length_loop_skip:
  assumes "0 \<le> sint len" and "sint len + int d \<le> 2147483647"
    and "\<forall>j. sint len \<le> j \<and> j < sint len + int d \<longrightarrow>
           0 \<le> s + j \<and> s + j < int (length m) \<and> m ! nat (s + j) \<noteq> CHR 0x00"
  shows "string_length_loop m s len = string_length_loop m s (len + of_nat d)"
  using assms
proof (induction d arbitrary: len)
  case 0
  then show ?case by simp
next
  case (Suc d)
  have s1: "sint (len + 1) = sint len + 1"
    using Suc.prems(2) by (intro sint_succ_exact) simp
  have here: "0 \<le> s + sint len \<and> s + sint len < int (length m) \<and> m ! nat (s + sint len) \<noteq> CHR 0x00"
    using Suc.prems(3) by simp
  have "string_length_loop m s len = string_length_loop m s (len + 1)"
    using here by (subst string_length_loop.simps) (simp add: load_def)
  also have "\<dots> = string_length_loop m s (len + 1 + of_nat d)"
    using Suc.prems s1 by (intro Suc.IH) auto
  finally show ?case
    by (simp add: add.assoc)
qed

lemma sint_of_nat_exact: "n \<le> 2147483647 \<Longrightarrow> sint (of_nat n :: cint) = int n"
  by (simp add: signed_of_nat signed_take_bit_int_eq_self)

lemma string_length_terminated:
  assumes "CHR 0x00 \<notin> set str" and "length str \<le> 2147483647"
  shows "string_length (pre @ str @ CHR 0x00 # rest) (int (length pre)) =
           Some (Inr (of_nat (length str)))"
proof -
  let ?m = "pre @ str @ CHR 0x00 # rest" and ?s = "int (length pre)"
  have nz: "\<forall>j. sint (0::cint) \<le> j \<and> j < sint (0::cint) + int (length str) \<longrightarrow>
           0 \<le> ?s + j \<and> ?s + j < int (length ?m) \<and> ?m ! nat (?s + j) \<noteq> CHR 0x00"
  proof (intro allI impI)
    fix j :: int
    assume "sint (0::cint) \<le> j \<and> j < sint (0::cint) + int (length str)"
    then have j: "0 \<le> j" "nat j < length str"
      by auto
    then have "?m ! nat (?s + j) = str ! nat j"
      by (simp add: nat_add_distrib nth_append)
    moreover have "str ! nat j \<noteq> CHR 0x00"
      using assms(1) j(2) by (metis nth_mem)
    ultimately show "0 \<le> ?s + j \<and> ?s + j < int (length ?m) \<and> ?m ! nat (?s + j) \<noteq> CHR 0x00"
      using j by simp
  qed
  have "string_length_loop ?m ?s 0 = string_length_loop ?m ?s (0 + of_nat (length str))"
    using assms(2) by (intro string_length_loop_skip nz) simp_all
  also have "\<dots> = Some (Inr (of_nat (length str)))"
    using assms(2)
    by (subst string_length_loop.simps)
      (simp add: load_def sint_of_nat_exact nat_add_distrib nth_append)
  finally show ?thesis
    by (simp add: string_length_def)
qed

lemma string_length_wraps:
  assumes "2147483648 \<le> length m"
    and "\<forall>j<2147483648. m ! j \<noteq> CHR 0x00"
  shows "string_length m 0 = Some (Inl OutOfBounds)"
proof -
  have "string_length_loop m 0 0 = string_length_loop m 0 (0 + of_nat 2147483647)"
  proof (rule string_length_loop_skip)
    show "\<forall>j. sint (0::cint) \<le> j \<and> j < sint (0::cint) + int 2147483647 \<longrightarrow>
           0 \<le> 0 + j \<and> 0 + j < int (length m) \<and> m ! nat (0 + j) \<noteq> CHR 0x00"
      using assms by auto
  qed simp_all
  also have "\<dots> = string_length_loop m 0 2147483647"
    by simp
  also have "\<dots> = string_length_loop m 0 (2147483647 + 1)"
    using assms by (subst string_length_loop.simps) (simp add: load_def)
  also have "\<dots> = Some (Inl OutOfBounds)"
    by (subst string_length_loop.simps) (simp add: load_def)
  finally show ?thesis
    by (simp add: string_length_def)
qed

text \<open>
  Claim C6, with the bound on the length that the \<open>int\<close> counter needs. When the
  characters \<open>str\<close> at address \<open>s\<close> hold no terminator, are followed by a terminator, and
  are fewer than \<open>2 ^ 31\<close>, \<open>string_length\<close> returns, and returns the number of characters
  of \<open>str\<close>: the number of characters strictly before the first terminator. In particular it returns 0 on the empty string and 5 on \<open>hello\<close>.
\<close>

theorem string_length_counts:
  "(CHR 0x00 \<notin> set str \<and> length str < 2 ^ 31 \<longrightarrow>
      (\<exists>r. string_length (pre @ str @ CHR 0x00 # rest) (int (length pre)) = Some (Inr r) \<and>
           sint r = int (length str))) \<and>
   string_length [CHR 0x00] 0 = Some (Inr 0) \<and>
   string_length (''hello'' @ [CHR 0x00]) 0 = Some (Inr 5)"
proof -
  have "\<exists>r. string_length (pre @ str @ CHR 0x00 # rest) (int (length pre)) = Some (Inr r) \<and>
           sint r = int (length str)"
    if "CHR 0x00 \<notin> set str" and "length str < 2 ^ 31"
  proof -
    from that(2) have le: "length str \<le> 2147483647"
      by simp
    from string_length_terminated [OF that(1) le] sint_of_nat_exact [OF le]
    show ?thesis by blast
  qed
  moreover have "string_length [CHR 0x00] 0 = Some (Inr 0)"
    using string_length_terminated [of "[]" "[]" "[]"] by simp
  moreover have "string_length (''hello'' @ [CHR 0x00]) 0 = Some (Inr 5)"
    using string_length_terminated [of "''hello''" "[]" "[]"] by simp
  ultimately show ?thesis
    by blast
qed

theorem string_length_counts_witness:
  "CHR 0x00 \<notin> set ''ab'' \<and> length ''ab'' < 2 ^ 31 \<and>
   (\<exists>r. string_length (''xy'' @ ''ab'' @ CHR 0x00 # ''z'') (int (length ''xy'')) = Some (Inr r) \<and>
        sint r = int (length ''ab''))"
proof -
  have h: "CHR 0x00 \<notin> set ''ab'' \<and> length ''ab'' < 2 ^ 31"
    by simp
  from string_length_counts [of "''ab''" "''xy''" "''z''"] h show ?thesis
    by blast
qed

text \<open>
  The bound on the length is needed. On \<open>2 ^ 31\<close> characters \<open>a\<close> followed by a terminator
  the counter \<open>len\<close> reaches \<open>2 ^ 31 - 1\<close>, the largest \<open>int\<close>; \<open>len++\<close> wraps to \<open>- 2 ^ 31\<close>,
  and the next read, \<open>s[len]\<close>, is \<open>2 ^ 31\<close> cells before the string. No \<open>int\<close> is the
  number of characters before the terminator.
\<close>

theorem string_length_long_counterexample:
  "CHR 0x00 \<notin> set (replicate (2 ^ 31) (CHR ''a'')) \<and>
   string_length (replicate (2 ^ 31) (CHR ''a'') @ [CHR 0x00]) 0 = Some (Inl OutOfBounds)"
proof -
  have "string_length (replicate (2 ^ 31) (CHR ''a'') @ [CHR 0x00]) 0 = Some (Inl OutOfBounds)"
    by (rule string_length_wraps) (simp_all add: nth_append)
  then show ?thesis
    by simp
qed

subsection \<open>\<open>matrix_sum\<close>\<close>

lemma length_3_conv: "length xs = 3 \<longleftrightarrow> (\<exists>a b c. xs = [a, b, c])"
  by (auto simp: numeral_3_eq_3 length_Suc_conv)

lemma matrix_sum_inner_row:
  "matrix_sum_inner [a, b, c] 0 s = Inr (s + a + b + c)"
  by (simp add: matrix_sum_inner.simps load_def word_sless_alt)

lemma matrix_sum_rows:
  "matrix_sum [[a, b, c], [d, e, f], [g, h, k]] 0 = Inr (a + b + c + d + e + f + g + h + k)"
  by (simp add: matrix_sum_def matrix_sum_outer.simps load_def word_sless_alt matrix_sum_inner_row)

lemma matrix_sum_3x3:
  assumes "length mx = 3" and "\<forall>row\<in>set mx. length row = 3"
  shows "matrix_sum mx 0 = Inr (sum_list (concat mx))"
proof -
  from assms(1) obtain r0 r1 r2 where mx: "mx = [r0, r1, r2]"
    by (auto simp: length_3_conv)
  with assms(2) have "length r0 = 3" "length r1 = 3" "length r2 = 3"
    by simp_all
  then obtain a b c d e f g h k where "r0 = [a, b, c]" "r1 = [d, e, f]" "r2 = [g, h, k]"
    by (auto simp: length_3_conv)
  with mx show ?thesis
    by (simp add: matrix_sum_rows add.assoc)
qed

text \<open>
  \<open>matrix_sum\<close> returns the sum of the nine cells of a 3x3 matrix, added as \<open>int\<close>s; it is 9
  on the matrix of ones.
\<close>

theorem matrix_sum_grid:
  "matrix_sum [[a, b, c], [d, e, f], [g, h, k]] 0 = Inr (a + b + c + d + e + f + g + h + k) \<and>
   matrix_sum [[1, 1, 1], [1, 1, 1], [1, 1, 1]] 0 = Inr 9"
  by (simp add: matrix_sum_rows)

subsection \<open>\<open>swap\<close>\<close>

text \<open>
  Claim C7. When \<open>a\<close> and \<open>b\<close> are two distinct valid addresses holding \<open>va\<close> and \<open>vb\<close>,
  \<open>swap\<close> succeeds, and in the memory after the call \<open>a\<close> holds \<open>vb\<close>, \<open>b\<close> holds \<open>va\<close>, and
  every other address holds what it held before (the memory has the same extent). The
  call yields the new memory and no other value.
\<close>

theorem swap_exchanges:
  assumes "load m a = Inr va" and "load m b = Inr vb" and "a \<noteq> b"
  shows "\<exists>m'. swap m a b = Inr m' \<and> load m' a = Inr vb \<and> load m' b = Inr va \<and>
           length m' = length m \<and> (\<forall>c. c \<noteq> a \<and> c \<noteq> b \<longrightarrow> load m' c = load m c)"
proof -
  from assms have a: "0 \<le> a" "a < int (length m)" "va = m ! nat a"
    and b: "0 \<le> b" "b < int (length m)" "vb = m ! nat b"
    by (simp_all add: load_Inr_iff)
  from a b \<open>a \<noteq> b\<close> have ne: "nat a \<noteq> nat b"
    by simp
  have "swap m a b = Inr (m[nat a := vb, nat b := va])"
    using a b by (simp add: swap_def load_def store_def)
  moreover have "load (m[nat a := vb, nat b := va]) a = Inr vb"
    using a b ne by (simp add: load_def)
  moreover have "load (m[nat a := vb, nat b := va]) b = Inr va"
    using a b ne by (simp add: load_def)
  moreover have "\<forall>c. c \<noteq> a \<and> c \<noteq> b \<longrightarrow> load (m[nat a := vb, nat b := va]) c = load m c"
    using a b by (auto simp: load_def nth_list_update)
  ultimately show ?thesis
    by simp
qed

theorem swap_exchanges_witness:
  "load [1, 2, 3 :: cint] 0 = Inr 1 \<and> load [1, 2, 3 :: cint] 2 = Inr 3 \<and> (0::int) \<noteq> 2 \<and>
   swap [1, 2, 3] 0 2 = Inr [3, 2, 1]"
proof -
  have h: "load [1, 2, 3 :: cint] 0 = Inr 1" "load [1, 2, 3 :: cint] 2 = Inr 3" "(0::int) \<noteq> 2"
    by (simp_all add: load_def)
  have s: "swap [1, 2, 3] 0 2 = Inr [3, 2, 1]"
    by (simp add: swap_def load_def store_def)
  from swap_exchanges [OF h] s h show ?thesis
    by simp
qed

text \<open>
  Claim C10. When both arguments of \<open>swap\<close> are the same valid address, the call succeeds
  and the memory after it is the memory before it.
\<close>

theorem swap_self:
  assumes "load m a = Inr v"
  shows "swap m a a = Inr m"
  using assms by (auto simp: swap_def load_def store_def split: if_splits)

theorem swap_self_witness:
  "load [4, 5, 6 :: cint] 1 = Inr 5 \<and> swap [4, 5, 6] 1 1 = Inr [4, 5, 6]"
proof -
  have h: "load [4, 5, 6 :: cint] 1 = Inr 5"
    by (simp add: load_def)
  from swap_self [OF h] h show ?thesis
    by simp
qed

subsection \<open>\<open>bubble_sort\<close>\<close>

text \<open>
  One run of the inner loop, started at \<open>j\<close> on the cells \<open>ys\<close> that end at the bound
  \<open>n - i - 1\<close>, permutes \<open>ys\<close> and leaves a largest element in the last cell; the cells
  before (\<open>as\<close>) and after (\<open>bs\<close>) are not touched.
\<close>

lemma load_append_hd: "load (as @ x # rest) (int (length as)) = Inr x"
  by (simp add: load_def)

lemma load_append_snd: "load (as @ x # y # rest) (int (length as) + 1) = Inr y"
  by (simp add: load_def nth_append nat_add_distrib)

lemma swap_adjacent:
  "swap (as @ x # y # rest) (int (length as)) (int (length as) + 1) = Inr (as @ y # x # rest)"
  by (simp add: swap_def load_append_hd load_append_snd store_def nat_add_distrib list_update_append)

lemma bubble_sort_inner_pass:
  assumes "ys \<noteq> []" and "arr + sint j = int (length as)"
    and "sint (n - i - 1) = sint j + int (length ys) - 1"
  shows "\<exists>ys'. bubble_sort_inner (as @ ys @ bs) arr n i j = Inr (as @ ys' @ bs) \<and>
           mset ys' = mset ys \<and> (\<forall>x\<in>set ys'. sint x \<le> sint (last ys'))"
  using assms
proof (induction "length ys" arbitrary: ys as j)
  case 0
  then show ?case by simp
next
  case (Suc k)
  from Suc.prems(1) obtain x ys0 where ys: "ys = x # ys0"
    by (cases ys) auto
  show ?case
  proof (cases ys0)
    case Nil
    with ys Suc.prems(3) have "\<not> j <s n - i - 1"
      by (simp add: word_sless_alt)
    then have "bubble_sort_inner (as @ ys @ bs) arr n i j = Inr (as @ ys @ bs)"
      by (subst bubble_sort_inner.simps) simp
    with ys Nil show ?thesis
      by auto
  next
    case (Cons y zs)
    with ys Suc.prems(3) have lt: "j <s n - i - 1"
      by (simp add: word_sless_alt)
    have s1: "sint (j + 1) = sint j + 1"
      using lt by (rule sint_succ)
    have a0: "arr + sint j = int (length as)"
      by (rule Suc.prems(2))
    have a1: "arr + sint (j + 1) = int (length as) + 1"
      using a0 s1 by simp
    have m: "as @ ys @ bs = as @ x # y # (zs @ bs)"
      using ys Cons by simp
    have l0: "load (as @ ys @ bs) (arr + sint j) = Inr x"
      unfolding m a0 by (rule load_append_hd)
    have l1: "load (as @ ys @ bs) (arr + sint (j + 1)) = Inr y"
      unfolding m a1 by (rule load_append_snd)
    have sw: "swap (as @ ys @ bs) (arr + sint j) (arr + sint (j + 1)) = Inr (as @ y # x # (zs @ bs))"
      unfolding m a0 a1 by (rule swap_adjacent)
    have len: "k = length (x # zs)" "k = length (y # zs)"
      using Suc.hyps(2) ys Cons by simp_all
    have bnd: "sint (n - i - 1) = sint (j + 1) + int (length (x # zs)) - 1"
      "sint (n - i - 1) = sint (j + 1) + int (length (y # zs)) - 1"
      using Suc.prems(3) ys Cons s1 by simp_all
    show ?thesis
    proof (cases "y <s x")
      case True
      have "arr + sint (j + 1) = int (length (as @ [y]))"
        using a1 by simp
      from Suc.hyps(1) [OF len(1) _ this bnd(1)]
      obtain ys' where r: "bubble_sort_inner ((as @ [y]) @ (x # zs) @ bs) arr n i (j + 1) =
            Inr ((as @ [y]) @ ys' @ bs)"
        and p: "mset ys' = mset (x # zs)" and mx: "\<forall>v\<in>set ys'. sint v \<le> sint (last ys')"
        by auto
      from p have ne: "ys' \<noteq> []" by auto
      from p have "x \<in> set ys'"
        by (metis list.set_intros(1) mset_eq_setD)
      with mx True have "sint y \<le> sint (last ys')"
        by (fastforce simp: word_sless_alt)
      with mx ne have mx': "\<forall>v\<in>set (y # ys'). sint v \<le> sint (last (y # ys'))"
        by simp
      have "bubble_sort_inner (as @ ys @ bs) arr n i j = Inr (as @ (y # ys') @ bs)"
        using r by (subst bubble_sort_inner.simps) (simp add: lt l0 l1 sw True)
      moreover have "mset (y # ys') = mset ys"
        using p ys Cons by simp
      ultimately show ?thesis
        using mx' by blast
    next
      case False
      have "arr + sint (j + 1) = int (length (as @ [x]))"
        using a1 by simp
      from Suc.hyps(1) [OF len(2) _ this bnd(2)]
      obtain ys' where r: "bubble_sort_inner ((as @ [x]) @ (y # zs) @ bs) arr n i (j + 1) =
            Inr ((as @ [x]) @ ys' @ bs)"
        and p: "mset ys' = mset (y # zs)" and mx: "\<forall>v\<in>set ys'. sint v \<le> sint (last ys')"
        by auto
      from p have ne: "ys' \<noteq> []" by auto
      from p have "y \<in> set ys'"
        by (metis list.set_intros(1) mset_eq_setD)
      with mx False have "sint x \<le> sint (last ys')"
        by (fastforce simp: word_sless_alt)
      with mx ne have mx': "\<forall>v\<in>set (x # ys'). sint v \<le> sint (last (x # ys'))"
        by simp
      have "bubble_sort_inner (as @ ys @ bs) arr n i (j + 1) = Inr (as @ (x # ys') @ bs)"
        using r ys Cons by simp
      then have "bubble_sort_inner (as @ ys @ bs) arr n i j = Inr (as @ (x # ys') @ bs)"
        by (subst bubble_sort_inner.simps) (simp add: lt l0 l1 False)
      moreover have "mset (x # ys') = mset ys"
        using p ys Cons by simp
      ultimately show ?thesis
        using mx' by blast
    qed
  qed
qed

text \<open>
  The outer loop keeps the cells in two parts: \<open>us\<close>, still to be sorted, and \<open>ss\<close>,
  ascending and above every element of \<open>us\<close>. Each pass moves the largest element of
  \<open>us\<close> to the front of \<open>ss\<close>.
\<close>

lemma sint_pred_exact: "- 2147483648 < sint n \<Longrightarrow> sint (n - 1 :: cint) = sint n - 1"
  using sint_range [of n] by (simp add: sint_sub_exact)

lemma bubble_sort_outer_sorts:
  assumes "arr = int (length as)" and "0 \<le> sint i"
    and "sint n = sint i + int (length us)"
    and "sorted (map sint ss)"
    and "\<forall>u\<in>set us. \<forall>s\<in>set ss. sint u \<le> sint s"
  shows "\<exists>seg. bubble_sort_outer (as @ us @ ss @ bs) arr n i = Inr (as @ seg @ bs) \<and>
           mset seg = mset (us @ ss) \<and> sorted (map sint seg)"
  using assms
proof (induction "length us" arbitrary: us ss i)
  case 0
  then have n1: "sint (n - 1) = sint n - 1"
    by (intro sint_pred_exact) simp
  with 0 have "\<not> i <s n - 1"
    by (simp add: word_sless_alt)
  then have "bubble_sort_outer (as @ us @ ss @ bs) arr n i = Inr (as @ us @ ss @ bs)"
    by (subst bubble_sort_outer.simps) simp
  with 0 show ?case
    by auto
next
  case (Suc k)
  have n1: "sint (n - 1) = sint n - 1"
    using Suc.prems(2,3) by (intro sint_pred_exact) simp
  show ?case
  proof (cases "i <s n - 1")
    case False
    with n1 Suc.prems(3) Suc.hyps(2) have "length us = 1"
      by (simp add: word_sless_alt)
    then obtain u where us: "us = [u]"
      by (cases us) auto
    have "bubble_sort_outer (as @ us @ ss @ bs) arr n i = Inr (as @ (us @ ss) @ bs)"
      using False by (subst bubble_sort_outer.simps) simp
    moreover have "sorted (map sint (us @ ss))"
      using us Suc.prems(4,5) by simp
    ultimately show ?thesis
      by blast
  next
    case True
    then have lt: "sint i < sint n - 1"
      using n1 by (simp add: word_sless_alt)
    have s1: "sint (i + 1) = sint i + 1"
      using True by (rule sint_succ)
    have ni: "sint (n - i) = sint n - sint i"
      using lt Suc.prems(2) sint_range [of n] by (intro sint_sub_exact) simp_all
    have "sint (n - i - 1) = sint (n - i) - 1"
      using ni lt by (intro sint_pred_exact) simp
    with ni Suc.prems(3) have bnd: "sint (n - i - 1) = sint (0::cint) + int (length us) - 1"
      by simp
    have ne: "us \<noteq> []"
      using Suc.hyps(2) by auto
    have a0: "arr + sint (0::cint) = int (length as)"
      using Suc.prems(1) by simp
    from bubble_sort_inner_pass [OF ne a0 bnd, of "ss @ bs"]
    obtain us' where r: "bubble_sort_inner (as @ us @ ss @ bs) arr n i 0 = Inr (as @ us' @ ss @ bs)"
      and p: "mset us' = mset us" and mx: "\<forall>x\<in>set us'. sint x \<le> sint (last us')"
      by auto
    from p ne have ne': "us' \<noteq> []"
      by auto
    from p have len': "length us' = length us"
      by (rule mset_eq_length)
    from p have set': "set us' = set us"
      by (rule mset_eq_setD)
    define vs where "vs = butlast us'"
    define w where "w = last us'"
    have us': "us' = vs @ [w]"
      using ne' by (simp add: vs_def w_def)
    have k: "k = length vs"
      using Suc.hyps(2) len' us' by simp
    have n': "sint n = sint (i + 1) + int (length vs)"
      using Suc.prems(3) s1 len' us' by simp
    have w_in: "w \<in> set us"
      using set' us' by auto
    have vs_in: "set vs \<subseteq> set us"
      using set' us' by auto
    have srt: "sorted (map sint (w # ss))"
      using Suc.prems(4,5) w_in by simp
    have le: "\<forall>u\<in>set vs. \<forall>s\<in>set (w # ss). sint u \<le> sint s"
      using Suc.prems(5) vs_in mx us' by auto
    have i1: "0 \<le> sint (i + 1)"
      using s1 Suc.prems(2) by simp
    from Suc.hyps(1) [OF k Suc.prems(1) i1 n' srt le]
    obtain seg where r2: "bubble_sort_outer (as @ vs @ (w # ss) @ bs) arr n (i + 1) = Inr (as @ seg @ bs)"
      and p2: "mset seg = mset (vs @ w # ss)" and s2: "sorted (map sint seg)"
      by auto
    have "bubble_sort_outer (as @ us @ ss @ bs) arr n i = Inr (as @ seg @ bs)"
      using r2 by (subst bubble_sort_outer.simps) (simp add: True r us')
    moreover have "mset seg = mset (us @ ss)"
      using p2 p us' by (simp flip: p)
    ultimately show ?thesis
      using s2 by blast
  qed
qed

lemma bubble_sort_sorts:
  assumes "sint n = int (length xs)"
  shows "\<exists>ys. bubble_sort (as @ xs @ bs) (int (length as)) n = Inr (as @ ys @ bs) \<and>
           mset ys = mset xs \<and> sorted (map sint ys)"
  using bubble_sort_outer_sorts [of "int (length as)" as 0 n xs "[]" bs] assms
  by (simp add: bubble_sort_def)

lemma bubble_sort_small:
  assumes "- 2147483648 < sint n" and "sint n \<le> 1"
  shows "bubble_sort m arr n = Inr m"
proof -
  have "sint (n - 1) = sint n - 1"
    using assms(1) by (rule sint_pred_exact)
  with assms(2) have "\<not> 0 <s n - 1"
    by (simp add: word_sless_alt)
  then show ?thesis
    unfolding bubble_sort_def by (subst bubble_sort_outer.simps) simp
qed

lemma sorted_sint_unique:
  assumes "mset ys = mset zs" and "sorted (map sint ys)" and "sorted (map sint zs)"
  shows "ys = (zs :: cint list)"
proof -
  have "mset (map sint ys) = mset (map sint zs)"
    using assms(1) by simp
  then have "map sint ys = map sint zs"
    using assms(2,3) by (metis properties_for_sort)
  moreover have "inj (sint :: cint \<Rightarrow> int)"
    by (simp add: inj_on_def word_eq_iff_signed [where ?'a = int])
  ultimately show ?thesis
    by (simp add: inj_map_eq_map)
qed

lemma bubble_sort_5: "bubble_sort [5, 2, 8, 1, 9] 0 5 = Inr [1, 2, 5, 8, 9]"
  by code_simp

text \<open>
  Claim C1. For every list \<open>xs\<close> of \<open>int\<close>s stored at \<open>arr\<close> and \<open>n\<close> equal to its length,
  \<open>bubble_sort\<close> succeeds and replaces \<open>xs\<close> (and nothing else) by a list \<open>ys\<close> that is a
  permutation of \<open>xs\<close> in ascending order of the signed values: the signed values of \<open>ys\<close>
  are the sorted signed values of \<open>xs\<close>. \<open>ys\<close> is the only ascending list with the
  elements of \<open>xs\<close>, and every permutation of \<open>xs\<close> is sorted to the same \<open>ys\<close>.
  \<open>bubble_sort\<close> on \<open>[5, 2, 8, 1, 9]\<close> with \<open>n = 5\<close> gives \<open>[1, 2, 5, 8, 9]\<close>.
\<close>

theorem bubble_sort_sorted_permutation:
  "(sint n = int (length xs) \<longrightarrow>
      (\<exists>ys. bubble_sort (as @ xs @ bs) (int (length as)) n = Inr (as @ ys @ bs) \<and>
            mset ys = mset xs \<and> sorted (map sint ys) \<and>
            map sint ys = sort (map sint xs) \<and>
            (\<forall>zs. mset zs = mset xs \<and> sorted (map sint zs) \<longrightarrow> zs = ys) \<and>
            (\<forall>xs'. mset xs' = mset xs \<longrightarrow>
               bubble_sort (as @ xs' @ bs) (int (length as)) n = Inr (as @ ys @ bs)))) \<and>
   bubble_sort [5, 2, 8, 1, 9] 0 5 = Inr [1, 2, 5, 8, 9]"
proof -
  have main: "\<exists>ys. bubble_sort (as @ xs @ bs) (int (length as)) n = Inr (as @ ys @ bs) \<and>
            mset ys = mset xs \<and> sorted (map sint ys) \<and>
            map sint ys = sort (map sint xs) \<and>
            (\<forall>zs. mset zs = mset xs \<and> sorted (map sint zs) \<longrightarrow> zs = ys) \<and>
            (\<forall>xs'. mset xs' = mset xs \<longrightarrow>
               bubble_sort (as @ xs' @ bs) (int (length as)) n = Inr (as @ ys @ bs))"
    if n: "sint n = int (length xs)"
  proof -
    from bubble_sort_sorts [OF n, of as bs]
    obtain ys where r: "bubble_sort (as @ xs @ bs) (int (length as)) n = Inr (as @ ys @ bs)"
      and p: "mset ys = mset xs" and s: "sorted (map sint ys)"
      by auto
    have "mset (map sint ys) = mset (map sint xs)"
      using p by simp
    then have q: "map sint ys = sort (map sint xs)"
      using s by (metis properties_for_sort)
    have u: "\<forall>zs. mset zs = mset xs \<and> sorted (map sint zs) \<longrightarrow> zs = ys"
      using p s by (auto intro: sorted_sint_unique)
    have "bubble_sort (as @ xs' @ bs) (int (length as)) n = Inr (as @ ys @ bs)"
      if p': "mset xs' = mset xs" for xs'
    proof -
      have "sint n = int (length xs')"
        using n mset_eq_length [OF p'] by simp
      from bubble_sort_sorts [OF this, of as bs]
      obtain ys' where r': "bubble_sort (as @ xs' @ bs) (int (length as)) n = Inr (as @ ys' @ bs)"
        and "mset ys' = mset xs'" and "sorted (map sint ys')"
        by auto
      with p' u have "ys' = ys"
        by simp
      with r' show ?thesis
        by simp
    qed
    with r p s q u show ?thesis
      by blast
  qed
  show ?thesis
    using main bubble_sort_5 by blast
qed

theorem bubble_sort_sorted_permutation_witness:
  "sint (3 :: cint) = int (length [3, 1, 2 :: cint]) \<and>
   (\<exists>ys. bubble_sort ([7] @ [3, 1, 2] @ [0]) (int (length [7 :: cint])) 3 = Inr ([7] @ ys @ [0]) \<and>
         mset ys = mset [3, 1, 2] \<and> sorted (map sint ys))"
proof -
  have h: "sint (3 :: cint) = int (length [3, 1, 2 :: cint])"
    by simp
  from bubble_sort_sorted_permutation [of 3 "[3, 1, 2]" "[7]" "[0]"] h show ?thesis
    by blast
qed

text \<open>
  Claim C2. \<open>bubble_sort\<close> leaves a list that is already ascending unchanged (the empty
  list included), and sorting the result of \<open>bubble_sort\<close> again gives that result again.
\<close>

theorem bubble_sort_idempotent:
  "(sint n = int (length xs) \<and> sorted (map sint xs) \<longrightarrow>
      bubble_sort (as @ xs @ bs) (int (length as)) n = Inr (as @ xs @ bs)) \<and>
   (sint n = int (length xs) \<longrightarrow>
      (\<exists>m'. bubble_sort (as @ xs @ bs) (int (length as)) n = Inr m' \<and>
            bubble_sort m' (int (length as)) n = Inr m')) \<and>
   bubble_sort [] 0 0 = Inr []"
proof -
  have fixed: "bubble_sort (as @ xs @ bs) (int (length as)) n = Inr (as @ xs @ bs)"
    if n: "sint n = int (length xs)" and s: "sorted (map sint xs)" for xs
  proof -
    from bubble_sort_sorts [OF n, of as bs]
    obtain ys where r: "bubble_sort (as @ xs @ bs) (int (length as)) n = Inr (as @ ys @ bs)"
      and p: "mset ys = mset xs" and s': "sorted (map sint ys)"
      by auto
    from p s' s have "ys = xs"
      by (rule sorted_sint_unique)
    with r show ?thesis
      by simp
  qed
  have twice: "\<exists>m'. bubble_sort (as @ xs @ bs) (int (length as)) n = Inr m' \<and>
            bubble_sort m' (int (length as)) n = Inr m'"
    if n: "sint n = int (length xs)"
  proof -
    from bubble_sort_sorts [OF n, of as bs]
    obtain ys where r: "bubble_sort (as @ xs @ bs) (int (length as)) n = Inr (as @ ys @ bs)"
      and p: "mset ys = mset xs" and s': "sorted (map sint ys)"
      by auto
    have "sint n = int (length ys)"
      using n mset_eq_length [OF p] by simp
    from fixed [OF this s'] r show ?thesis
      by blast
  qed
  have "bubble_sort [] 0 0 = Inr []"
    by (rule bubble_sort_small) simp_all
  with fixed twice show ?thesis
    by blast
qed

theorem bubble_sort_idempotent_witness:
  "sint (3 :: cint) = int (length [1, 2, 2 :: cint]) \<and> sorted (map sint [1, 2, 2 :: cint]) \<and>
   bubble_sort ([9] @ [1, 2, 2] @ [0]) (int (length [9 :: cint])) 3 = Inr ([9] @ [1, 2, 2] @ [0]) \<and>
   (\<exists>m'. bubble_sort ([9] @ [1, 2, 2] @ [0]) (int (length [9 :: cint])) 3 = Inr m' \<and>
         bubble_sort m' (int (length [9 :: cint])) 3 = Inr m')"
proof -
  have h: "sint (3 :: cint) = int (length [1, 2, 2 :: cint]) \<and> sorted (map sint [1, 2, 2 :: cint])"
    by simp
  from bubble_sort_idempotent [of 3 "[1, 2, 2]" "[9]" "[0]"] h show ?thesis
    by blast
qed

lemma split_at_segment:
  assumes "0 \<le> arr" and "0 \<le> k" and "arr + k \<le> int (length m)"
  shows "m = take (nat arr) m @ take (nat k) (drop (nat arr) m) @ drop (nat (arr + k)) m"
    and "int (length (take (nat arr) m)) = arr"
    and "int (length (take (nat k) (drop (nat arr) m))) = k"
proof -
  have "drop (nat arr) m = take (nat k) (drop (nat arr) m) @ drop (nat k) (drop (nat arr) m)"
    by (rule append_take_drop_id [symmetric])
  also have "drop (nat k) (drop (nat arr) m) = drop (nat (arr + k)) m"
    using assms by (simp add: nat_add_distrib add.commute)
  finally have "take (nat arr) m @ drop (nat arr) m =
      take (nat arr) m @ take (nat k) (drop (nat arr) m) @ drop (nat (arr + k)) m"
    by simp
  then show "m = take (nat arr) m @ take (nat k) (drop (nat arr) m) @ drop (nat (arr + k)) m"
    by simp
  show "int (length (take (nat arr) m)) = arr"
    using assms by simp
  show "int (length (take (nat k) (drop (nat arr) m))) = k"
    using assms by simp
qed

text \<open>
  Claim C9. When \<open>arr\<close> points to at least \<open>n\<close> cells and \<open>n\<close> is not negative, \<open>bubble_sort\<close>
  sorts the first \<open>n\<close> cells at \<open>arr\<close> and leaves every other cell of the memory as it was:
  the cells at and after index \<open>arr + n\<close> (and those before \<open>arr\<close>). For \<open>n \<le> 1\<close> the whole
  memory is unchanged.
\<close>

theorem bubble_sort_frame:
  assumes "0 \<le> arr" and "0 \<le> sint n" and "arr + sint n \<le> int (length m)"
  shows "\<exists>m'. bubble_sort m arr n = Inr m' \<and> length m' = length m \<and>
           (\<forall>k. (int k < arr \<or> arr + sint n \<le> int k) \<and> k < length m \<longrightarrow> m' ! k = m ! k) \<and>
           mset (take (nat (sint n)) (drop (nat arr) m')) =
             mset (take (nat (sint n)) (drop (nat arr) m)) \<and>
           sorted (map sint (take (nat (sint n)) (drop (nat arr) m'))) \<and>
           (sint n \<le> 1 \<longrightarrow> m' = m)"
proof -
  define as where "as = take (nat arr) m"
  define xs where "xs = take (nat (sint n)) (drop (nat arr) m)"
  define bs where "bs = drop (nat (arr + sint n)) m"
  from split_at_segment [OF assms]
  have m: "m = as @ xs @ bs" and la: "int (length as) = arr" and lx: "sint n = int (length xs)"
    by (simp_all add: as_def xs_def bs_def)
  from bubble_sort_sorts [OF lx, of as bs]
  obtain ys where r: "bubble_sort m arr n = Inr (as @ ys @ bs)"
    and p: "mset ys = mset xs" and s: "sorted (map sint ys)"
    using m la by auto
  have ly: "length ys = length xs"
    using p by (rule mset_eq_length)
  have na: "nat arr = length as" and nn: "nat (sint n) = length xs"
    using la lx by simp_all
  have seg: "take (nat (sint n)) (drop (nat arr) (as @ ys @ bs)) = ys"
    using ly by (simp add: na nn)
  have frame: "(as @ ys @ bs) ! k = m ! k"
    if "(int k < arr \<or> arr + sint n \<le> int k) \<and> k < length m" for k
  proof -
    from that la lx have "k < length as \<or> length as + length xs \<le> k"
      by auto
    then show ?thesis
      unfolding m using ly by (auto simp: nth_append)
  qed
  have small: "as @ ys @ bs = m" if "sint n \<le> 1"
  proof -
    have "bubble_sort m arr n = Inr m"
      using assms(2) that by (intro bubble_sort_small) simp_all
    with r show ?thesis
      by simp
  qed
  have "length (as @ ys @ bs) = length m"
    using m ly by simp
  moreover have "mset (take (nat (sint n)) (drop (nat arr) (as @ ys @ bs))) =
      mset (take (nat (sint n)) (drop (nat arr) m))"
    unfolding seg using p by (simp add: xs_def)
  moreover have "sorted (map sint (take (nat (sint n)) (drop (nat arr) (as @ ys @ bs))))"
    unfolding seg by (rule s)
  ultimately show ?thesis
    using r frame small by blast
qed

theorem bubble_sort_frame_witness:
  "(0::int) \<le> 0 \<and> 0 \<le> sint (3 :: cint) \<and> 0 + sint (3 :: cint) \<le> int (length [3, 2, 1, 0, 5 :: cint]) \<and>
   bubble_sort [3, 2, 1, 0, 5] 0 3 = Inr [1, 2, 3, 0, 5]"
proof -
  have h: "(0::int) \<le> 0" "0 \<le> sint (3 :: cint)"
    "0 + sint (3 :: cint) \<le> int (length [3, 2, 1, 0, 5 :: cint])"
    by simp_all
  have c: "bubble_sort [3, 2, 1, 0, 5] 0 3 = Inr [1, 2, 3, 0, 5]"
    by code_simp
  from bubble_sort_frame [OF h] c h show ?thesis
    by simp
qed

subsection \<open>Bounds safety\<close>

lemma sum_array_in_bounds:
  assumes "sint len \<le> int (length xs)"
  shows "\<exists>r. sum_array xs 0 len = Inr r"
proof (cases "0 \<le> sint len")
  case True
  with assms sum_array_loop_sum [of 0 0 len xs 0] show ?thesis
    by (simp add: sum_array_def)
next
  case False
  then have "\<not> 0 <s len"
    by (simp add: word_sless_alt)
  then show ?thesis
    unfolding sum_array_def by (subst sum_array_loop.simps) simp
qed

lemma bubble_sort_in_bounds:
  assumes "- 2147483648 < sint n" and "sint n \<le> int (length xs)"
  shows "\<exists>ys. bubble_sort xs 0 n = Inr ys"
proof (cases "sint n \<le> 1")
  case True
  with assms(1) show ?thesis
    by (simp add: bubble_sort_small)
next
  case False
  then have n0: "0 \<le> sint n"
    by simp
  from split_at_segment [OF _ n0, of 0 xs] assms(2)
  have m: "xs = [] @ take (nat (sint n)) xs @ drop (nat (sint n)) xs"
    and l: "sint n = int (length (take (nat (sint n)) xs))"
    by simp_all
  from bubble_sort_sorts [OF l, of "[]" "drop (nat (sint n)) xs"] m show ?thesis
    by auto
qed

text \<open>
  Claim C3, with \<open>n\<close> above the least \<open>int\<close>. Here the memory is exactly the sequence, so every access outside
  the sequence is the error \<open>OutOfBounds\<close>. The error is not reached by \<open>sum_array\<close> when
  \<open>len\<close> does not exceed the length of the array, by \<open>bubble_sort\<close> when \<open>n\<close> does not
  exceed the length of the array and is not the least \<open>int\<close>, \<open>- 2 ^ 31\<close>, and by
  \<open>matrix_sum\<close> on three rows of three cells.
\<close>

theorem bounds_safety:
  "(sint len \<le> int (length xs) \<longrightarrow> (\<exists>r. sum_array xs 0 len = Inr r)) \<and>
   (- 2147483648 < sint n \<and> sint n \<le> int (length xs) \<longrightarrow> (\<exists>ys. bubble_sort xs 0 n = Inr ys)) \<and>
   (length mx = 3 \<and> (\<forall>row\<in>set mx. length row = 3) \<longrightarrow> (\<exists>r. matrix_sum mx 0 = Inr r))"
  using sum_array_in_bounds bubble_sort_in_bounds matrix_sum_3x3 by blast

theorem bounds_safety_witness:
  "sint (2 :: cint) \<le> int (length [4, 6, 1 :: cint]) \<and> sum_array [4, 6, 1] 0 2 = Inr 10 \<and>
   - 2147483648 < sint (3 :: cint) \<and> sint (3 :: cint) \<le> int (length [4, 6, 1 :: cint]) \<and>
   bubble_sort [4, 6, 1] 0 3 = Inr [1, 4, 6] \<and>
   length [[1, 2, 3], [4, 5, 6], [7, 8, 9 :: cint]] = 3 \<and>
   list_all (\<lambda>row. length row = 3) [[1, 2, 3], [4, 5, 6], [7, 8, 9 :: cint]] \<and>
   matrix_sum [[1, 2, 3], [4, 5, 6], [7, 8, 9]] 0 = Inr 45"
proof -
  have h: "sint (2 :: cint) \<le> int (length [4, 6, 1 :: cint])"
    "- 2147483648 < sint (3 :: cint) \<and> sint (3 :: cint) \<le> int (length [4, 6, 1 :: cint])"
    "length [[1, 2, 3], [4, 5, 6], [7, 8, 9 :: cint]] = 3 \<and>
     (\<forall>row\<in>set [[1, 2, 3], [4, 5, 6], [7, 8, 9 :: cint]]. length row = 3)"
    by simp_all
  have c: "sum_array [4, 6, 1] 0 2 = Inr 10" "bubble_sort [4, 6, 1] 0 3 = Inr [1, 4, 6]"
    "matrix_sum [[1, 2, 3], [4, 5, 6], [7, 8, 9]] 0 = Inr 45"
    by code_simp+
  from bounds_safety [of 2 "[4, 6, 1]" 3 "[[1, 2, 3], [4, 5, 6], [7, 8, 9]]"] h c show ?thesis
    by simp
qed

text \<open>
  For \<open>n = - 2 ^ 31\<close>, the bound \<open>n - 1\<close> of the outer loop of \<open>bubble_sort\<close> overflows: it
  wraps to \<open>2 ^ 31 - 1\<close>, the loops run, and the inner loop reads past the end of the
  array.
\<close>

theorem bubble_sort_int_min_counterexample:
  "sint (- 2147483648 :: cint) \<le> int (length [3, 1, 2 :: cint]) \<and>
   bubble_sort [3, 1, 2] 0 (- 2147483648) = Inl OutOfBounds"
proof -
  have "bubble_sort [3, 1, 2] 0 (- 2147483648) = Inl OutOfBounds"
    by code_simp
  then show ?thesis
    by simp
qed

end
